theory Spec2Isabelle
  imports Main
begin

section \<open>Go strings\<close>

text \<open>
  A Go string is a sequence of bytes; \<^typ>\<open>string\<close> is a list of 8-bit characters.
  The quote characters cannot stand inside a string literal, so they are named by code.
\<close>

abbreviation SQ :: char where "SQ \<equiv> CHR 0x27"
abbreviation DQ :: char where "DQ \<equiv> CHR 0x22"

subsection \<open>strings.ToLower\<close>

text \<open>
  On a string of ASCII bytes \<open>strings.ToLower\<close> adds \<open>'a' - 'A'\<close> to every byte between
  \<open>'A'\<close> and \<open>'Z'\<close>. On a string with a byte from \<open>0x80\<close> on Go maps each rune through the
  Unicode tables; the model leaves such bytes as they are. \<open>waiterFor\<close> only compares the
  result with the ASCII literal \<open>delete\<close>, and no rune outside ASCII has one of the letters
  \<open>d\<close>, \<open>e\<close>, \<open>l\<close>, \<open>t\<close> as its lower case, so the comparison has the same outcome.
\<close>

definition toLowerByte :: "char \<Rightarrow> char" where
  "toLowerByte c =
     (if (65::nat) \<le> of_char c \<and> of_char c \<le> (90::nat)
      then char_of (of_char c + (32::nat)) else c)"

definition ToLower :: "string \<Rightarrow> string" where
  "ToLower s = map toLowerByte s"

subsection \<open>strings.HasPrefix\<close>

text \<open>\<^verbatim>\<open>return len(s) >= len(prefix) && s[:len(prefix)] == prefix\<close>\<close>

definition HasPrefix :: "string \<Rightarrow> string \<Rightarrow> bool" where
  "HasPrefix s pre = (length s \<ge> length pre \<and> take (length pre) s = pre)"

subsection \<open>strings.Contains\<close>

text \<open>
  \<open>strings.Contains(s, substr)\<close> is \<open>Index(s, substr) >= 0\<close>: \<open>substr\<close> stands at some
  position of \<open>s\<close>. It is not called by \<open>waiter.go\<close>; it states what a message contains.
\<close>

fun Contains :: "string \<Rightarrow> string \<Rightarrow> bool" where
  "Contains [] substr = (substr = [])"
| "Contains (x # xs) substr = (HasPrefix (x # xs) substr \<or> Contains xs substr)"

subsection \<open>strings.Index, strings.Count and strings.Split with a one-byte separator\<close>

text \<open>
  \<open>waiter.go\<close> calls \<open>strings.Index\<close> and \<open>strings.Split\<close> with the separator \<open>"="\<close> only.
  For a separator of one byte the library searches that byte (\<open>IndexByteString\<close>) and
  counts it (\<open>CountString\<close>); the model takes the separator as that byte.
\<close>

fun Index :: "string \<Rightarrow> char \<Rightarrow> int" where
  "Index [] c = - 1"
| "Index (x # xs) c =
     (if x = c then 0
      else (let i = Index xs c in if i = - 1 then - 1 else i + 1))"

definition Count :: "string \<Rightarrow> char \<Rightarrow> nat" where
  "Count s c = length (filter (\<lambda>x. x = c) s)"

text \<open>
  The loop of \<open>genSplit\<close>, which \<open>Split\<close> runs with \<open>n = Count(s, sep) + 1\<close> (never more
  than \<open>len(s) + 1\<close>, the bound \<open>genSplit\<close> cuts \<open>n\<close> to):
  \<^verbatim>\<open>
  n--
  i := 0
  for i < n {
      m := Index(s, sep)
      if m < 0 { break }
      a[i] = s[:m+sepSave]
      s = s[m+len(sep):]
      i++
  }
  a[i] = s
  return a[:i+1]
  \<close>
  The argument \<open>k\<close> is the number of iterations left, \<open>n - i\<close>.
\<close>

fun genSplit :: "string \<Rightarrow> char \<Rightarrow> nat \<Rightarrow> string list" where
  "genSplit s c 0 = [s]"
| "genSplit s c (Suc k) =
     (let m = Index s c in
      if m < 0 then [s]
      else take (nat m) s # genSplit (drop (nat m + 1) s) c k)"

definition Split :: "string \<Rightarrow> char \<Rightarrow> string list" where
  "Split s c = genSplit s c (Count s c)"

subsection \<open>strings.Trim\<close>

text \<open>
  \<open>strings.Trim(s, cutset)\<close> returns \<open>s\<close> without all leading and all trailing bytes that
  are in \<open>cutset\<close> (for an ASCII cutset the library works on bytes):
  \<open>trimLeftASCII(trimRightASCII(s, &as), &as)\<close>.
\<close>

definition TrimLeft :: "string \<Rightarrow> string \<Rightarrow> string" where
  "TrimLeft s cutset = dropWhile (\<lambda>c. c \<in> set cutset) s"

definition TrimRight :: "string \<Rightarrow> string \<Rightarrow> string" where
  "TrimRight s cutset = rev (dropWhile (\<lambda>c. c \<in> set cutset) (rev s))"

definition Trim :: "string \<Rightarrow> string \<Rightarrow> string" where
  "Trim s cutset = TrimLeft (TrimRight s cutset) cutset"

subsection \<open>The verb \<open>%q\<close> of fmt\<close>




section \<open>Errors and waiters\<close>

text \<open>
  The errors \<open>waiterFor\<close> returns, one constructor for each place of \<open>waiter.go\<close> that makes
  or passes on an error. \<open>RelaxError\<close> and \<open>ParseError\<close> carry the message of the error
  that \<open>get.RelaxedJSONPathExpression\<close> and \<open>jsonpath.Parse\<close> returned.
\<close>

datatype error =
    MalformedJSONPathExpression
  | UnrecognizedCondition string
  | EmptyExpression
  | EmptyCondition
  | RelaxError string
  | ParseError string


text \<open>
  \<open>NewDeletionWaiter\<close>, \<open>NewConditionalWaiter\<close> and \<open>NewJSONPathWaiter\<close> are defined in other
  files of the package. A waiter is represented by the call that builds it, with the
  arguments of the call: the condition name and value, the expected value and the parsed
  JSONPath (of a type \<open>'j\<close>), and the writer \<open>errOut\<close> (of a type \<open>'w\<close>).
\<close>

datatype ('j, 'w) Waiter =
    DeletionWaiter
  | ConditionalWaiter string string 'w
  | JSONPathWaiter string 'j 'w

section \<open>waiter.go\<close>

text \<open>
  The two functions of other packages are parameters. \<open>relax\<close> is
  \<open>get.RelaxedJSONPathExpression\<close>, which returns the relaxed expression or the message of
  an error. \<open>newJSONPathParser\<close> makes the parser object with \<open>jsonpath.New("wait")\<close> (an
  allocation, which cannot fail), checks the expression, and then calls \<open>Parse\<close> on the
  object; \<open>parse\<close> is \<open>Parse\<close> on that new object, which returns the object after parsing
  or the message of an error.
\<close>

type_synonym relaxer = "string \<Rightarrow> string + string"
type_synonym 'j parser = "string \<Rightarrow> string + 'j"

definition newJSONPathParser :: "'j parser \<Rightarrow> string \<Rightarrow> error + 'j" where
  "newJSONPathParser parse jsonPathExpression =
     (if jsonPathExpression = [] then Inl EmptyExpression
      else case parse jsonPathExpression of
             Inl msg \<Rightarrow> Inl (ParseError msg)
           | Inr j \<Rightarrow> Inr j)"

definition processJSONPathInput :: "relaxer \<Rightarrow> string \<Rightarrow> string \<Rightarrow> error + string \<times> string" where
  "processJSONPathInput relax jsonPathExpression jsonPathCond =
     (case relax jsonPathExpression of
        Inl msg \<Rightarrow> Inl (RelaxError msg)
      | Inr relaxedJSONPathExp \<Rightarrow>
          if jsonPathCond = [] then Inl EmptyCondition
          else Inr (relaxedJSONPathExp, Trim jsonPathCond [SQ, DQ]))"

definition waiterFor :: "relaxer \<Rightarrow> 'j parser \<Rightarrow> string \<Rightarrow> 'w \<Rightarrow> error + ('j, 'w) Waiter" where
  "waiterFor relax parse condition errOut =
     (if ToLower condition = ''delete'' then Inr DeletionWaiter
      else if HasPrefix condition ''condition='' then
        (let conditionName = drop (length ''condition='') condition;
             equalsIndex = Index conditionName (CHR ''='')
         in if equalsIndex \<noteq> - 1
            then Inr (ConditionalWaiter (take (nat equalsIndex) conditionName)
                        (drop (nat (equalsIndex + 1)) conditionName) errOut)
            else Inr (ConditionalWaiter conditionName ''true'' errOut))
      else if HasPrefix condition ''jsonpath='' then
        (let splitStr = Split condition (CHR ''='') in
         if length splitStr \<noteq> 3 then Inl MalformedJSONPathExpression
         else case processJSONPathInput relax (splitStr ! 1) (splitStr ! 2) of
                Inl err \<Rightarrow> Inl err
              | Inr (jsonPathExp, jsonPathCond) \<Rightarrow>
                  (case newJSONPathParser parse jsonPathExp of
                     Inl err \<Rightarrow> Inl err
                   | Inr j \<Rightarrow> Inr (JSONPathWaiter jsonPathCond j errOut)))
      else Inl (UnrecognizedCondition condition))"

subsection \<open>Collaborators for concrete evaluations\<close>

text \<open>
  The theorems below hold for every \<open>relax\<close> and every \<open>parse\<close>. Where a statement is
  evaluated at a concrete condition, these stand in for the two collaborators:
  a relaxer that accepts every expression and returns it unchanged, a relaxer that
  accepts the empty and the bracketed expressions only, and a parser that accepts every
  expression and represents the parsed JSONPath by its text.
\<close>

definition relaxUnchanged :: relaxer where
  "relaxUnchanged p = Inr p"


definition parseAccepting :: "string parser" where
  "parseAccepting e = Inr e"

section \<open>Properties of the library functions\<close>

lemma Index_ge: "- 1 \<le> Index s c"
  by (induction s) (auto simp: Let_def)

lemma Index_absent: "(Index s c = - 1) = (c \<notin> set s)"
proof (induction s)
  case Nil
  show ?case by simp
next
  case (Cons x xs)
  have "- 1 \<le> Index xs c" by (rule Index_ge)
  with Cons show ?case by (auto simp: Let_def)
qed

lemma Index_neg: "(Index s c < 0) = (c \<notin> set s)"
  using Index_ge [of s c] Index_absent [of s c] by auto

lemma Index_first: "c \<notin> set a \<Longrightarrow> Index (a @ c # rest) c = int (length a)"
  by (induction a) (auto simp: Let_def)

lemma genSplit_absent: "c \<notin> set a \<Longrightarrow> genSplit a c k = [a]"
  by (cases k) (simp_all add: Index_neg)

lemma genSplit_first:
  "c \<notin> set a \<Longrightarrow> genSplit (a @ c # rest) c (Suc k) = a # genSplit rest c k"
  by (simp add: Index_first)

lemma Count_Cons: "Count (x # xs) c = (if x = c then Suc (Count xs c) else Count xs c)"
  by (simp add: Count_def)

lemma Count_append: "Count (a @ b) c = Count a c + Count b c"
  by (simp add: Count_def)

lemma Count_zero: "(Count a c = 0) = (c \<notin> set a)"
  by (induction a) (auto simp: Count_def)

lemma Count_first: "c \<notin> set a \<Longrightarrow> Count (a @ c # rest) c = Suc (Count rest c)"
  using Count_zero [of a c] by (simp add: Count_append Count_Cons)

text \<open>\<open>Split\<close> returns one field more than the string has separators.\<close>

lemma length_genSplit: "length (genSplit s c (Count s c)) = Count s c + 1"
proof (induction s rule: length_induct)
  case (1 s)
  show ?case
  proof (cases "c \<in> set s")
    case False
    then show ?thesis by (simp add: genSplit_absent Count_zero)
  next
    case True
    then obtain a rest where s: "s = a @ c # rest" and a: "c \<notin> set a"
      by (metis split_list_first)
    have "length rest < length s" by (simp add: s)
    then have IH: "length (genSplit rest c (Count rest c)) = Count rest c + 1"
      using 1 by blast
    have "genSplit s c (Count s c) = a # genSplit rest c (Count rest c)"
      unfolding s Count_first [OF a] by (rule genSplit_first [OF a])
    then have "length (genSplit s c (Count s c)) = Suc (Count rest c + 1)"
      by (simp add: IH)
    then show ?thesis
      by (simp add: s Count_first [OF a])
  qed
qed

lemma length_Split: "length (Split s c) = Count s c + 1"
  by (simp add: Split_def length_genSplit)


lemma length_ToLower: "length (ToLower s) = length s"
  by (simp add: ToLower_def)

lemma HasPrefix_iff: "HasPrefix s pre = (\<exists>rest. s = pre @ rest)"
  unfolding HasPrefix_def
  by (metis append_eq_conv_conj append_take_drop_id length_append le_add1)

lemma HasPrefix_append: "HasPrefix (pre @ rest) pre"
  by (simp add: HasPrefix_def)

section \<open>The branches of waiterFor\<close>

lemma ToLower_delete_length: "ToLower c = ''delete'' \<Longrightarrow> length c = 6"
  using length_ToLower [of c] by simp

lemma condition_not_delete: "ToLower (''condition='' @ rest) \<noteq> ''delete''"
  using ToLower_delete_length [of "''condition='' @ rest"] by auto

lemma jsonpath_not_delete: "ToLower (''jsonpath='' @ rest) \<noteq> ''delete''"
  using ToLower_delete_length [of "''jsonpath='' @ rest"] by auto

lemma jsonpath_not_condition: "\<not> HasPrefix (''jsonpath='' @ rest) ''condition=''"
  by (simp add: HasPrefix_def)

text \<open>A condition with the prefix \<open>condition=\<close> reaches the second branch.\<close>

lemma waiterFor_condition:
  "waiterFor relax parse (''condition='' @ rest) errOut =
     (let equalsIndex = Index rest (CHR ''='') in
      if equalsIndex \<noteq> - 1
      then Inr (ConditionalWaiter (take (nat equalsIndex) rest)
                  (drop (nat (equalsIndex + 1)) rest) errOut)
      else Inr (ConditionalWaiter rest ''true'' errOut))"
  unfolding waiterFor_def
  by (simp only: condition_not_delete HasPrefix_append if_False if_True append_eq_conv_conj drop_append)
     (simp add: Let_def)

text \<open>A condition with the prefix \<open>jsonpath=\<close> reaches the third branch.\<close>

lemma waiterFor_jsonpath:
  "waiterFor relax parse (''jsonpath='' @ rest) errOut =
     (let splitStr = Split (''jsonpath='' @ rest) (CHR ''='') in
      if length splitStr \<noteq> 3 then Inl MalformedJSONPathExpression
      else case processJSONPathInput relax (splitStr ! 1) (splitStr ! 2) of
             Inl err \<Rightarrow> Inl err
           | Inr (jsonPathExp, jsonPathCond) \<Rightarrow>
               (case newJSONPathParser parse jsonPathExp of
                  Inl err \<Rightarrow> Inl err
                | Inr j \<Rightarrow> Inr (JSONPathWaiter jsonPathCond j errOut)))"
  unfolding waiterFor_def
  by (simp only: jsonpath_not_delete jsonpath_not_condition HasPrefix_append if_False if_True)

lemma processJSONPathInput_not_Malformed:
  "processJSONPathInput relax p c \<noteq> Inl MalformedJSONPathExpression"
  by (simp add: processJSONPathInput_def split: sum.splits)

lemma newJSONPathParser_not_Malformed:
  "newJSONPathParser parse e \<noteq> Inl MalformedJSONPathExpression"
  by (simp add: newJSONPathParser_def split: sum.splits)

text \<open>Only the check of the number of fields returns the format error.\<close>

lemma waiterFor_jsonpath_Malformed:
  "(waiterFor relax parse (''jsonpath='' @ rest) errOut = Inl MalformedJSONPathExpression)
     = (length (Split (''jsonpath='' @ rest) (CHR ''='')) \<noteq> 3)"
  unfolding waiterFor_jsonpath Let_def
  by (auto simp: processJSONPathInput_not_Malformed newJSONPathParser_not_Malformed
      split: sum.splits prod.splits)

lemma Count_jsonpath: "Count (''jsonpath='' @ rest) (CHR ''='') = Suc (Count rest (CHR ''=''))"
  using Count_first [of "CHR ''=''" "''jsonpath''" rest] by simp

section \<open>Trimming the expected value\<close>

lemma dropWhile_hd: "xs \<noteq> [] \<Longrightarrow> \<not> P (hd xs) \<Longrightarrow> dropWhile P xs = xs"
  by (cases xs) auto

text \<open>
  \<open>Trim\<close> removes every leading and every trailing byte of the cutset, however many
  there are, and nothing between the first and the last byte outside the cutset.
\<close>

lemma Trim_layers:
  assumes q1: "set q1 \<subseteq> set cutset" and q2: "set q2 \<subseteq> set cutset"
    and v: "v = [] \<or> (hd v \<notin> set cutset \<and> last v \<notin> set cutset)"
  shows "Trim (q1 @ v @ q2) cutset = v"
proof (cases "v = []")
  case True
  have "TrimRight (q1 @ q2) cutset = []"
    unfolding TrimRight_def using q1 q2 by (auto simp: dropWhile_eq_Nil_conv)
  then show ?thesis
    by (simp add: True Trim_def TrimLeft_def)
next
  case False
  with v have h: "hd v \<notin> set cutset" and l: "last v \<notin> set cutset" by auto
  have "dropWhile (\<lambda>c. c \<in> set cutset) (rev q2 @ (rev v @ rev q1)) =
        dropWhile (\<lambda>c. c \<in> set cutset) (rev v @ rev q1)"
    using q2 by (intro dropWhile_append2) auto
  also have "\<dots> = rev v @ rev q1"
    using False l by (intro dropWhile_hd) (auto simp: hd_append hd_rev)
  finally have r: "TrimRight (q1 @ v @ q2) cutset = q1 @ v"
    by (simp add: TrimRight_def)
  have "dropWhile (\<lambda>c. c \<in> set cutset) (q1 @ v) = dropWhile (\<lambda>c. c \<in> set cutset) v"
    using q1 by (intro dropWhile_append2) auto
  also have "\<dots> = v"
    using False h by (intro dropWhile_hd) auto
  finally show ?thesis
    by (simp add: Trim_def r TrimLeft_def)
qed



section \<open>What a message contains\<close>

lemma Contains_append: "Contains (pre @ s @ suf) s"
proof (induction pre)
  case Nil
  show ?case
  proof (cases "s @ suf")
    case Nil
    then show ?thesis by simp
  next
    case (Cons x xs)
    have "HasPrefix (s @ suf) s" by (rule HasPrefix_append)
    then show ?thesis using Cons by simp
  qed
next
  case (Cons x pre)
  then show ?case by simp
qed

text \<open>\<open>Contains s substr\<close> holds exactly when \<open>substr\<close> stands somewhere in \<open>s\<close>.\<close>

lemma Contains_iff: "Contains s substr = (\<exists>pre suf. s = pre @ substr @ suf)"
proof
  assume "Contains s substr"
  then show "\<exists>pre suf. s = pre @ substr @ suf"
  proof (induction s)
    case Nil
    then show ?case by simp
  next
    case (Cons x xs)
    show ?case
    proof (cases "HasPrefix (x # xs) substr")
      case True
      then obtain rest where "x # xs = substr @ rest"
        using HasPrefix_iff by blast
      then have "x # xs = [] @ substr @ rest" by simp
      then show ?thesis by blast
    next
      case False
      with Cons.prems have "Contains xs substr" by simp
      then obtain pre suf where "xs = pre @ substr @ suf"
        using Cons.IH by blast
      then have "x # xs = (x # pre) @ substr @ suf" by simp
      then show ?thesis by blast
    qed
  qed
next
  assume "\<exists>pre suf. s = pre @ substr @ suf"
  then show "Contains s substr"
    using Contains_append by blast
qed



section \<open>The claims\<close>

subsection \<open>C1: the quotes around the expected value\<close>

text \<open>
  C1 says that \<open>processJSONPathInput\<close> removes exactly one layer of quotes from the
  expected value, so that \<open>''Running''\<close> (two single quotes on each side) becomes
  \<open>'Running'\<close>. \<open>strings.Trim\<close> removes all of them: with a relaxer that accepts the
  path, the expected value \<open>''Running''\<close> becomes \<open>Running\<close>.
\<close>

theorem processJSONPathInput_single_layer_counterexample:
  "processJSONPathInput relaxUnchanged ''{.status.phase}'' ([SQ, SQ] @ ''Running'' @ [SQ, SQ])
     = Inr (''{.status.phase}'', ''Running'')
   \<and> processJSONPathInput relaxUnchanged ''{.status.phase}'' ([SQ, SQ] @ ''Running'' @ [SQ, SQ])
     \<noteq> Inr (''{.status.phase}'', [SQ] @ ''Running'' @ [SQ])"
  by (simp add: processJSONPathInput_def relaxUnchanged_def Trim_def TrimLeft_def TrimRight_def)

text \<open>
  C1, as amended: when the relaxer accepts the path and the expected value is not empty,
  \<open>processJSONPathInput\<close> returns the expected value without all of its leading and all
  of its trailing single and double quotes, of either kind and in any number and mixture
  (\<open>q1\<close> and \<open>q2\<close>); what stands between them (\<open>v\<close>, which neither begins nor ends with a
  quote) is returned unchanged, the quotes inside it included. One layer, as in
  \<open>'Running'\<close>, is the case of one quote on each side.
\<close>

theorem processJSONPathInput_trims_all_quotes:
  assumes "relax jsonPathExpression = Inr relaxed"
    and "set q1 \<subseteq> {SQ, DQ}" and "set q2 \<subseteq> {SQ, DQ}"
    and "v = [] \<or> (hd v \<notin> {SQ, DQ} \<and> last v \<notin> {SQ, DQ})"
    and "q1 @ v @ q2 \<noteq> []"
  shows "processJSONPathInput relax jsonPathExpression (q1 @ v @ q2) = Inr (relaxed, v)"
proof -
  have "Trim (q1 @ v @ q2) [SQ, DQ] = v"
    using assms(2-4) by (intro Trim_layers) auto
  then show ?thesis
    using assms(1,5) by (simp add: processJSONPathInput_def)
qed

text \<open>
  The theorem at \<open>'Running'\<close>, and at \<open>"'Run'ning'""\<close>, whose inner quote stays.
\<close>

theorem processJSONPathInput_trims_all_quotes_witness:
  "relaxUnchanged ''{.status.phase}'' = Inr ''{.status.phase}''
   \<and> processJSONPathInput relaxUnchanged ''{.status.phase}'' ([SQ] @ ''Running'' @ [SQ])
       = Inr (''{.status.phase}'', ''Running'')
   \<and> processJSONPathInput relaxUnchanged ''{.status.phase}''
         ([DQ, SQ] @ ''Run'' @ [SQ] @ ''ning'' @ [SQ, DQ, DQ])
       = Inr (''{.status.phase}'', ''Run'' @ [SQ] @ ''ning'')"
  using processJSONPathInput_trims_all_quotes
      [of relaxUnchanged "''{.status.phase}''" "''{.status.phase}''" "[SQ]" "[SQ]" "''Running''"]
    processJSONPathInput_trims_all_quotes
      [of relaxUnchanged "''{.status.phase}''" "''{.status.phase}''" "[DQ, SQ]" "[SQ, DQ, DQ]"
        "''Run'' @ [SQ] @ ''ning''"]
  by (simp add: relaxUnchanged_def)

subsection \<open>C2: the number of fields of a jsonpath condition\<close>

text \<open>
  C2: for a condition with the prefix \<open>jsonpath=\<close>, \<open>Split\<close> at \<open>=\<close> returns two fields more
  than there are \<open>=\<close> after the prefix; \<open>waiterFor\<close> returns the format error exactly when
  the number of \<open>=\<close> after the prefix is not one (none, or two and more), and it returns a
  waiter only when there are three fields. \<open>jsonpath={.status.phase}\<close> and
  \<open>jsonpath={.status.phase}=a=b\<close> get the format error, \<open>jsonpath={.status.phase}=Running\<close>
  does not, whatever the relaxer and the parser do.
\<close>

theorem waiterFor_jsonpath_arity:
  "(HasPrefix condition ''jsonpath='' \<longrightarrow>
      length (Split condition (CHR ''=''))
        = Count (drop (length ''jsonpath='') condition) (CHR ''='') + 2
      \<and> (waiterFor relax parse condition errOut = Inl MalformedJSONPathExpression)
           = (Count (drop (length ''jsonpath='') condition) (CHR ''='') \<noteq> 1)
      \<and> ((\<exists>wt. waiterFor relax parse condition errOut = Inr wt)
           \<longrightarrow> length (Split condition (CHR ''='')) = 3))
   \<and> waiterFor relax parse ''jsonpath={.status.phase}'' errOut
       = Inl MalformedJSONPathExpression
   \<and> waiterFor relax parse ''jsonpath={.status.phase}=a=b'' errOut
       = Inl MalformedJSONPathExpression
   \<and> waiterFor relax parse ''jsonpath={.status.phase}=Running'' errOut
       \<noteq> Inl MalformedJSONPathExpression"
proof -
  have general:
    "length (Split condition (CHR ''=''))
        = Count (drop (length ''jsonpath='') condition) (CHR ''='') + 2
      \<and> (waiterFor relax parse condition errOut = Inl MalformedJSONPathExpression)
           = (Count (drop (length ''jsonpath='') condition) (CHR ''='') \<noteq> 1)
      \<and> ((\<exists>wt. waiterFor relax parse condition errOut = Inr wt)
           \<longrightarrow> length (Split condition (CHR ''='')) = 3)"
    if "HasPrefix condition ''jsonpath=''"
  proof -
    from that obtain rest where c: "condition = ''jsonpath='' @ rest"
      using HasPrefix_iff by blast
    have d: "drop (length ''jsonpath='') condition = rest"
      by (simp add: c)
    have len: "length (Split condition (CHR ''='')) = Count rest (CHR ''='') + 2"
      unfolding c length_Split Count_jsonpath by simp
    have mal: "(waiterFor relax parse condition errOut = Inl MalformedJSONPathExpression)
                 = (Count rest (CHR ''='') \<noteq> 1)"
      unfolding c waiterFor_jsonpath_Malformed length_Split Count_jsonpath by auto
    have "length (Split condition (CHR ''='')) = 3"
      if "waiterFor relax parse condition errOut = Inr wt" for wt
    proof (rule ccontr)
      assume "length (Split condition (CHR ''='')) \<noteq> 3"
      then have "waiterFor relax parse condition errOut = Inl MalformedJSONPathExpression"
        unfolding c waiterFor_jsonpath_Malformed .
      with that show False by simp
    qed
    then show ?thesis
      unfolding d using len mal by blast
  qed
  have e1: "waiterFor relax parse ''jsonpath={.status.phase}'' errOut
              = Inl MalformedJSONPathExpression"
    using waiterFor_jsonpath_Malformed [of relax parse "''{.status.phase}''" errOut]
    by (simp add: length_Split Count_def)
  have e2: "waiterFor relax parse ''jsonpath={.status.phase}=a=b'' errOut
              = Inl MalformedJSONPathExpression"
    using waiterFor_jsonpath_Malformed [of relax parse "''{.status.phase}=a=b''" errOut]
    by (simp add: length_Split Count_def)
  have e3: "waiterFor relax parse ''jsonpath={.status.phase}=Running'' errOut
              \<noteq> Inl MalformedJSONPathExpression"
    using waiterFor_jsonpath_Malformed [of relax parse "''{.status.phase}=Running''" errOut]
    by (simp add: length_Split Count_def)
  show ?thesis
    using general e1 e2 e3 by blast
qed

text \<open>
  The theorem at \<open>jsonpath={.status.phase}=Running\<close>, with collaborators that accept the
  path: three fields, and the waiter for the path and the value \<open>Running\<close>.
\<close>

theorem waiterFor_jsonpath_arity_witness:
  "HasPrefix ''jsonpath={.status.phase}=Running'' ''jsonpath=''
   \<and> length (Split ''jsonpath={.status.phase}=Running'' (CHR ''='')) = 3
   \<and> waiterFor relaxUnchanged parseAccepting ''jsonpath={.status.phase}=Running'' ()
       = Inr (JSONPathWaiter ''Running'' ''{.status.phase}'' ())
   \<and> waiterFor relaxUnchanged parseAccepting ''jsonpath={.status.phase}=Running'' ()
       \<noteq> Inl MalformedJSONPathExpression"
proof -
  have p: "HasPrefix ''jsonpath={.status.phase}=Running'' ''jsonpath=''"
    by (simp add: HasPrefix_def)
  have w: "waiterFor relaxUnchanged parseAccepting ''jsonpath={.status.phase}=Running'' ()
       = Inr (JSONPathWaiter ''Running'' ''{.status.phase}'' ())"
    using waiterFor_jsonpath [of relaxUnchanged parseAccepting "''{.status.phase}=Running''" "()"]
    by (simp add: Split_def Count_def processJSONPathInput_def newJSONPathParser_def
        relaxUnchanged_def parseAccepting_def Trim_def TrimLeft_def TrimRight_def)
  show ?thesis
    using waiterFor_jsonpath_arity
      [of "''jsonpath={.status.phase}=Running''" relaxUnchanged parseAccepting "()"] p w
    by blast
qed

subsection \<open>C3: the name and the value of a named condition\<close>

text \<open>
  C3: \<open>waiterFor\<close> on \<open>condition=REST\<close> returns the waiter of a named condition. When
  \<open>REST\<close> has no \<open>=\<close>, the name is \<open>REST\<close> and the value is \<open>true\<close>. When it has one, the
  name is what stands before the first \<open>=\<close> (a name without \<open>=\<close>) and the value is all that
  follows it, further \<open>=\<close> included: \<open>condition=Ready=a=b\<close> has the name \<open>Ready\<close> and the
  value \<open>a=b\<close>.
\<close>

theorem waiterFor_condition_first_equals:
  "(CHR ''='' \<notin> set rest \<longrightarrow>
      waiterFor relax parse (''condition='' @ rest) errOut
        = Inr (ConditionalWaiter rest ''true'' errOut))
   \<and> (CHR ''='' \<notin> set name \<longrightarrow>
      waiterFor relax parse (''condition='' @ name @ ''='' @ val) errOut
        = Inr (ConditionalWaiter name val errOut))"
proof (intro conjI impI)
  assume "CHR ''='' \<notin> set rest"
  then have "Index rest (CHR ''='') = - 1" by (simp add: Index_absent)
  then show "waiterFor relax parse (''condition='' @ rest) errOut
               = Inr (ConditionalWaiter rest ''true'' errOut)"
    unfolding waiterFor_condition by simp
next
  assume n: "CHR ''='' \<notin> set name"
  have i: "Index (name @ ''='' @ val) (CHR ''='') = int (length name)"
    using Index_first [OF n, of val] by simp
  show "waiterFor relax parse (''condition='' @ name @ ''='' @ val) errOut
          = Inr (ConditionalWaiter name val errOut)"
    unfolding waiterFor_condition i by (simp add: nat_add_distrib)
qed

text \<open>The theorem at \<open>condition=Ready\<close> and at \<open>condition=Ready=a=b\<close>.\<close>

theorem waiterFor_condition_first_equals_witness:
  "CHR ''='' \<notin> set ''Ready''
   \<and> waiterFor relaxUnchanged parseAccepting ''condition=Ready'' ()
       = Inr (ConditionalWaiter ''Ready'' ''true'' ())
   \<and> waiterFor relaxUnchanged parseAccepting ''condition=Ready=a=b'' ()
       = Inr (ConditionalWaiter ''Ready'' ''a=b'' ())"
  using waiterFor_condition_first_equals
      [of "''Ready''" relaxUnchanged parseAccepting "()" "''Ready''" "''a=b''"]
  by simp

subsection \<open>C4: delete, in any case\<close>

text \<open>
  C4: \<open>waiterFor\<close> returns the deletion waiter exactly when the condition in lower case
  is \<open>delete\<close>. \<open>delete\<close>, \<open>DELETE\<close> and \<open>Delete\<close> get it; \<open>deleted\<close> has no known prefix and
  gets the error of an unrecognized condition.
\<close>

theorem waiterFor_delete_iff:
  "(waiterFor relax parse condition errOut = Inr DeletionWaiter)
     = (ToLower condition = ''delete'')
   \<and> waiterFor relax parse ''delete'' errOut = Inr DeletionWaiter
   \<and> waiterFor relax parse ''DELETE'' errOut = Inr DeletionWaiter
   \<and> waiterFor relax parse ''Delete'' errOut = Inr DeletionWaiter
   \<and> waiterFor relax parse ''deleted'' errOut = Inl (UnrecognizedCondition ''deleted'')"
proof (intro conjI)
  show "(waiterFor relax parse condition errOut = Inr DeletionWaiter)
          = (ToLower condition = ''delete'')"
    unfolding waiterFor_def
    by (auto simp: Let_def split: sum.splits prod.splits)
qed (simp_all add: waiterFor_def ToLower_def toLowerByte_def char_of_eq_iff HasPrefix_def)

subsection \<open>C5: a condition of no known kind\<close>




subsection \<open>C6: an empty path expression\<close>



subsection \<open>C7: an empty expected value\<close>



subsection \<open>C8: the same condition, the same result\<close>



subsection \<open>C9: an expected value of two quotes\<close>



subsection \<open>C10: a named condition never fails\<close>

text \<open>
  C10: on every condition with the prefix \<open>condition=\<close>, \<open>waiterFor\<close> returns a waiter of a
  named condition and no error; on \<open>condition=\<close> itself the name is empty and the value
  is \<open>true\<close>.
\<close>

theorem waiterFor_condition_succeeds:
  "(HasPrefix condition ''condition='' \<longrightarrow>
      (\<exists>name val. waiterFor relax parse condition errOut
                     = Inr (ConditionalWaiter name val errOut)))
   \<and> waiterFor relax parse ''condition='' errOut = Inr (ConditionalWaiter [] ''true'' errOut)"
proof (intro conjI impI)
  assume "HasPrefix condition ''condition=''"
  then obtain rest where c: "condition = ''condition='' @ rest"
    using HasPrefix_iff by blast
  show "\<exists>name val. waiterFor relax parse condition errOut
                     = Inr (ConditionalWaiter name val errOut)"
    unfolding c waiterFor_condition by (simp add: Let_def)
next
  show "waiterFor relax parse ''condition='' errOut = Inr (ConditionalWaiter [] ''true'' errOut)"
    using waiterFor_condition [of relax parse "[]" errOut] by simp
qed

text \<open>The theorem at \<open>condition==\<close>: an empty name and an empty value, and no error.\<close>

theorem waiterFor_condition_succeeds_witness:
  "HasPrefix ''condition=='' ''condition=''
   \<and> (\<exists>name val. waiterFor relaxUnchanged parseAccepting ''condition=='' ()
                    = Inr (ConditionalWaiter name val ()))"
  using waiterFor_condition_succeeds [of "''condition==''" relaxUnchanged parseAccepting "()"]
  by (simp add: HasPrefix_def)

end
